theory Spec2Isabelle
  imports
    Main
    "HOL-Library.Char_ord"
    "HOL-Library.List_Lexorder"
    "HOL-Library.Product_Lexorder"
begin

section \<open>temp\_missing.py: missing script references of a project tree\<close>

text \<open>
  The script walks a project root, collects the identifiers declared by the
  \<^verbatim>\<open>.cs.meta\<close> files (the Collector), walks the \<^verbatim>\<open>Assets\<close> subtree, matches a
  fixed regular expression against every asset file (the Scanner), and prints the
  references whose identifier was not collected (the Reporter).

  Text is modelled as \<^typ>\<open>string\<close>: one \<^typ>\<open>char\<close> stands for one code point below 256
  of a Python \<^verbatim>\<open>str\<close>. Code points from 256 on are not represented.
\<close>

subsection \<open>Python string operations\<close>

text \<open>
  \<^verbatim>\<open>str.isspace\<close> on one character, which is also the class \<^verbatim>\<open>\s\<close> of a \<^verbatim>\<open>str\<close>
  pattern: TAB, LF, VT, FF, CR, the separators 0x1C to 0x1F, the space, NEL (0x85) and
  the no-break space (0xA0).
\<close>

definition is_space :: "char \<Rightarrow> bool" where
  "is_space c =
     (let n = (of_char c :: nat)
      in (9 \<le> n \<and> n \<le> 13) \<or> (28 \<le> n \<and> n \<le> 32) \<or> n = 133 \<or> n = 160)"

text \<open>
  \<^verbatim>\<open>str.lower\<close> on one character: the letters A to Z and the upper-case letters of
  Latin-1 (0xC0 to 0xDE without the multiplication sign 0xD7) move up by 32.
\<close>

definition lower_char :: "char \<Rightarrow> char" where
  "lower_char c =
     (let n = (of_char c :: nat)
      in if (65 \<le> n \<and> n \<le> 90) \<or> (192 \<le> n \<and> n \<le> 222 \<and> n \<noteq> 215)
         then char_of (n + 32) else c)"

definition lower :: "string \<Rightarrow> string" where
  "lower s = map lower_char s"

text \<open>\<^verbatim>\<open>s.startswith(p)\<close> and \<^verbatim>\<open>s.endswith(p)\<close>, both case-sensitive.\<close>

fun startswith :: "string \<Rightarrow> string \<Rightarrow> bool" where
  "startswith s [] = True"
| "startswith [] (p # ps) = False"
| "startswith (c # cs) (p # ps) = (c = p \<and> startswith cs ps)"

definition endswith :: "string \<Rightarrow> string \<Rightarrow> bool" where
  "endswith s p = startswith (rev s) (rev p)"

text \<open>\<^verbatim>\<open>s.endswith(t)\<close> for a tuple \<^verbatim>\<open>t\<close> of suffixes.\<close>

definition endswith_any :: "string \<Rightarrow> string list \<Rightarrow> bool" where
  "endswith_any s ps = list_ex (endswith s) ps"

text \<open>\<^verbatim>\<open>s.strip()\<close>: the white space at both ends is removed.\<close>

definition strip :: "string \<Rightarrow> string" where
  "strip s = rev (dropWhile is_space (rev (dropWhile is_space s)))"

text \<open>
  \<^verbatim>\<open>s.split(sep, 1)\<close> for a one-character separator: the parts before and after the
  first separator, or the string alone when it has none.
\<close>

definition split1 :: "char \<Rightarrow> string \<Rightarrow> string list" where
  "split1 sep s =
     (case dropWhile (\<lambda>c. c \<noteq> sep) s of
        [] \<Rightarrow> [s]
      | _ # after \<Rightarrow> [takeWhile (\<lambda>c. c \<noteq> sep) s, after])"

text \<open>The only exception of the script that no handler catches.\<close>

datatype error = IndexError

text \<open>\<^verbatim>\<open>xs[i]\<close> for an index that is not negative.\<close>

definition getitem :: "'a list \<Rightarrow> nat \<Rightarrow> error + 'a" where
  "getitem xs i = (if i < length xs then Inr (xs ! i) else Inl IndexError)"

subsection \<open>Files\<close>

text \<open>
  What \<^verbatim>\<open>open(path, encoding='utf-8', errors='ignore')\<close> and reading the handle give:
  \<open>Unreadable\<close> when the open or the read raises \<^verbatim>\<open>OSError\<close>, otherwise the text
  as the handle delivers it (decoded, undecodable bytes dropped, every line end
  translated to a line feed). The Collector reads line by line and leaves the loop at its
  first hit, so a read that would fail later in the file is never made: such a file is a
  \<open>Text\<close> for it.
\<close>

datatype content = Unreadable | Text string

text \<open>
  One file of a directory walk: \<open>name\<close> is the entry of \<^verbatim>\<open>files\<close>, \<open>relpath\<close> is the
  value of \<^verbatim>\<open>os.path.relpath(os.path.join(dirpath, name), root)\<close>. A walk is the list
  of its files in the order \<^verbatim>\<open>os.walk\<close> yields them.
\<close>

record file_entry =
  name :: string
  relpath :: string
  content :: content

text \<open>
  Iterating over a text handle: the lines of the text, each with its line feed; the last
  line has none when the text does not end with one.
\<close>

fun readlines :: "string \<Rightarrow> string list" where
  "readlines [] = []"
| "readlines (c # cs) =
     (if c = CHR 0x0A then [c] # readlines cs
      else (case readlines cs of [] \<Rightarrow> [[c]] | l # ls \<Rightarrow> (c # l) # ls))"

subsection \<open>The Collector\<close>

text \<open>
  The loop over the lines of one metadata file. The first line that starts with
  \<^verbatim>\<open>guid: \<close> adds \<^verbatim>\<open>line.split(':', 1)[1].strip()\<close> to the set and ends the loop.
\<close>

fun collect_lines :: "string set \<Rightarrow> string list \<Rightarrow> error + string set" where
  "collect_lines script_guids [] = Inr script_guids"
| "collect_lines script_guids (line # rest) =
     (if startswith line ''guid: ''
      then (case getitem (split1 CHR '':'' line) 1 of
              Inl e \<Rightarrow> Inl e
            | Inr v \<Rightarrow> Inr (insert (strip v) script_guids))
      else collect_lines script_guids rest)"

text \<open>The body of the loop over the files: the name test, then the guarded read.\<close>

definition collect_file :: "string set \<Rightarrow> file_entry \<Rightarrow> error + string set" where
  "collect_file script_guids f =
     (if \<not> endswith (name f) ''.cs.meta'' then Inr script_guids
      else (case content f of
              Unreadable \<Rightarrow> Inr script_guids
            | Text t \<Rightarrow> collect_lines script_guids (readlines t)))"

fun collect_files :: "string set \<Rightarrow> file_entry list \<Rightarrow> error + string set" where
  "collect_files script_guids [] = Inr script_guids"
| "collect_files script_guids (f # fs) =
     (case collect_file script_guids f of
        Inl e \<Rightarrow> Inl e
      | Inr script_guids' \<Rightarrow> collect_files script_guids' fs)"

definition collector :: "file_entry list \<Rightarrow> error + string set" where
  "collector walk = collect_files {} walk"

subsection \<open>The pattern\<close>

text \<open>
  The pieces the regular expression of the script is made of: a literal text, the
  white space run \<^verbatim>\<open>\s*\<close>, and the group \<^verbatim>\<open>([0-9a-f]{n})\<close>.
\<close>

datatype item = Lit string | Spaces | HexGroup nat

text \<open>
  Under \<^verbatim>\<open>re.IGNORECASE\<close> a character of the text matches a literal character when
  both have the same lower-case form, and it is in the class \<^verbatim>\<open>[0-9a-f]\<close> when its
  lower-case form is.
\<close>

fun startswith_ignorecase :: "string \<Rightarrow> string \<Rightarrow> bool" where
  "startswith_ignorecase s [] = True"
| "startswith_ignorecase [] (p # ps) = False"
| "startswith_ignorecase (c # cs) (p # ps) =
     (lower_char c = lower_char p \<and> startswith_ignorecase cs ps)"

definition is_hex :: "char \<Rightarrow> bool" where
  "is_hex c = (lower_char c \<in> set ''0123456789abcdef'')"

text \<open>
  Matching a pattern at the start of a text: the text of the group and the text left
  after the match, or \<open>None\<close>. The run \<^verbatim>\<open>\s*\<close> is greedy and gives characters back
  when the rest of the pattern fails.
\<close>

fun rmatch :: "item list \<Rightarrow> string \<Rightarrow> (string \<times> string) option" where
  "rmatch [] t = Some ([], t)"
| "rmatch (Lit s # items) t =
     (if startswith_ignorecase t s then rmatch items (drop (length s) t) else None)"
| "rmatch (Spaces # items) [] = rmatch items []"
| "rmatch (Spaces # items) (c # cs) =
     (if is_space c
      then (case rmatch (Spaces # items) cs of
              Some r \<Rightarrow> Some r
            | None \<Rightarrow> rmatch items (c # cs))
      else rmatch items (c # cs))"
| "rmatch (HexGroup n # items) t =
     (if n \<le> length t \<and> list_all is_hex (take n t)
      then (case rmatch items (drop n t) of
              Some (_, r) \<Rightarrow> Some (take n t, r)
            | None \<Rightarrow> None)
      else None)"

text \<open>
  \<^verbatim>\<open>re.compile(r"m_Script:\s*\{fileID:\s*11500000,\s*guid:\s*([0-9a-f]{32})", re.IGNORECASE)\<close>
\<close>

definition pattern :: "item list" where
  "pattern =
     [Lit ''m_Script:'', Spaces, Lit ''{fileID:'', Spaces, Lit ''11500000,'', Spaces,
      Lit ''guid:'', Spaces, HexGroup 32]"

text \<open>A match never leaves more text than it was given.\<close>

lemma rmatch_length: "rmatch items t = Some (g, r) \<Longrightarrow> length r \<le> length t"
proof (induction items t arbitrary: g r rule: rmatch.induct)
  case (1 t)
  then show ?case by simp
next
  case (2 s items t)
  then show ?case by (fastforce split: if_splits)
next
  case (3 items)
  then show ?case by simp
next
  case (4 items c cs)
  then show ?case by (fastforce split: if_splits option.splits)
next
  case (5 n items t)
  then show ?case by (fastforce split: if_splits option.splits prod.splits)
qed

lemma rmatch_pattern_shorter:
  assumes "rmatch pattern t = Some (g, r)"
  shows "length r < length t"
proof -
  let ?rest = "[Spaces, Lit ''{fileID:'', Spaces, Lit ''11500000,'', Spaces,
      Lit ''guid:'', Spaces, HexGroup 32]"
  from assms have st: "startswith_ignorecase t ''m_Script:''"
    and m: "rmatch ?rest (drop (length ''m_Script:'') t) = Some (g, r)"
    by (simp_all add: pattern_def split: if_splits)
  from st have "t \<noteq> []" by (cases t) simp_all
  moreover from m have "length r \<le> length (drop (length ''m_Script:'') t)"
    by (rule rmatch_length)
  ultimately show ?thesis by (cases t) simp_all
qed

text \<open>
  \<^verbatim>\<open>pattern.finditer(text)\<close>: the matches from left to right, none overlapping another;
  of each match the text of its group, \<^verbatim>\<open>match.group(1)\<close>. The search for the next
  match starts where the last one ended, and one character further on where the pattern
  does not match.
\<close>

function finditer :: "string \<Rightarrow> string list" where
  "finditer t =
     (case rmatch pattern t of
        Some (g, r) \<Rightarrow> g # finditer r
      | None \<Rightarrow> (case t of [] \<Rightarrow> [] | _ # cs \<Rightarrow> finditer cs))"
  by pat_completeness auto
termination
  by (relation "measure length") (auto dest: rmatch_pattern_shorter)

declare finditer.simps [simp del]

subsection \<open>The Scanner\<close>

text \<open>
  The loop over the matches of one asset file: the first identifier that is not in
  \<open>script_guids\<close>, lower-cased, is recorded with the file's relative path, and the loop
  ends.
\<close>

fun scan_matches ::
  "string set \<Rightarrow> string \<Rightarrow> string list \<Rightarrow> (string \<times> string) set \<Rightarrow> (string \<times> string) set"
where
  "scan_matches script_guids rel [] missing = missing"
| "scan_matches script_guids rel (m # ms) missing =
     (let guid = lower m
      in if guid \<notin> script_guids then insert (rel, guid) missing
         else scan_matches script_guids rel ms missing)"

definition target_exts :: "string list" where
  "target_exts = [''.prefab'', ''.unity'', ''.asset'']"

text \<open>The body of the loop over the files of the \<^verbatim>\<open>Assets\<close> walk.\<close>

definition scan_file ::
  "string set \<Rightarrow> (string \<times> string) set \<Rightarrow> file_entry \<Rightarrow> (string \<times> string) set"
where
  "scan_file script_guids missing f =
     (if \<not> endswith_any (lower (name f)) target_exts then missing
      else (case content f of
              Unreadable \<Rightarrow> missing
            | Text t \<Rightarrow> scan_matches script_guids (relpath f) (finditer t) missing))"

fun scan_files ::
  "string set \<Rightarrow> (string \<times> string) set \<Rightarrow> file_entry list \<Rightarrow> (string \<times> string) set"
where
  "scan_files script_guids missing [] = missing"
| "scan_files script_guids missing (f # fs) =
     scan_files script_guids (scan_file script_guids missing f) fs"

definition scanner :: "string set \<Rightarrow> file_entry list \<Rightarrow> (string \<times> string) set" where
  "scanner script_guids walk = scan_files script_guids {} walk"

subsection \<open>The Reporter\<close>

text \<open>
  \<^verbatim>\<open>sorted(missing)\<close> orders the pairs by their first string and then by their second,
  strings by their code points; that is the order of \<^typ>\<open>string \<times> string\<close> here.
  The standard output is the list of the printed lines.
\<close>

definition format_line :: "string \<times> string \<Rightarrow> string" where
  "format_line = (\<lambda>(rel, guid). rel @ '' -> '' @ guid)"

definition reporter :: "(string \<times> string) set \<Rightarrow> string list" where
  "reporter missing =
     (if missing \<noteq> {} then map format_line (sorted_list_of_set missing)
      else [''No missing scripts under Assets''])"

subsection \<open>The script\<close>

text \<open>
  The whole run, from the walk of the root and the walk of \<^verbatim>\<open>Assets\<close> to the printed
  lines, or to the exception that ends it.
\<close>

definition temp_missing :: "file_entry list \<Rightarrow> file_entry list \<Rightarrow> error + string list" where
  "temp_missing walk_root walk_assets =
     (case collector walk_root of
        Inl e \<Rightarrow> Inl e
      | Inr script_guids \<Rightarrow> Inr (reporter (scanner script_guids walk_assets)))"

subsection \<open>The declaration of a metadata file, after the specification\<close>

text \<open>
  The identifier a metadata file declares, in the words of the specification (4.1): the
  name ends with the sidecar suffix, the file can be read, and of the first line that
  begins with \<^verbatim>\<open>guid: \<close> the text after the first colon is taken, trimmed. It is
  compared with the loop of the Collector below.
\<close>

definition spec_declared_guid :: "file_entry \<Rightarrow> string option" where
  "spec_declared_guid f =
     (if endswith (name f) ''.cs.meta''
      then (case content f of
              Unreadable \<Rightarrow> None
            | Text t \<Rightarrow>
                map_option (\<lambda>l. strip (tl (dropWhile (\<lambda>c. c \<noteq> CHR '':'') l)))
                  (find (\<lambda>l. startswith l ''guid: '') (readlines t)))
      else None)"

section \<open>Properties\<close>

subsection \<open>Strings\<close>

lemma startswith_iff: "startswith s p \<longleftrightarrow> (\<exists>r. s = p @ r)"
  by (induction s p rule: startswith.induct) auto

lemma endswith_iff: "endswith s p \<longleftrightarrow> (\<exists>b. s = b @ p)"
proof -
  have "endswith s p \<longleftrightarrow> (\<exists>r. rev s = rev p @ r)"
    by (simp add: endswith_def startswith_iff)
  also have "\<dots> \<longleftrightarrow> (\<exists>b. s = b @ p)"
  proof
    assume "\<exists>r. rev s = rev p @ r"
    then obtain r where "rev s = rev p @ r" ..
    then have "s = rev r @ p" by (simp add: rev_swap)
    then show "\<exists>b. s = b @ p" ..
  next
    assume "\<exists>b. s = b @ p"
    then show "\<exists>r. rev s = rev p @ r" by auto
  qed
  finally show ?thesis .
qed

subsection \<open>The Collector as a union over the files\<close>

lemma guid_line_split:
  assumes "startswith line ''guid: ''"
  shows "getitem (split1 CHR '':'' line) (Suc 0) = Inr (tl (dropWhile (\<lambda>c. c \<noteq> CHR '':'') line))"
proof -
  from assms obtain r where "line = ''guid: '' @ r" by (auto simp: startswith_iff)
  then show ?thesis by (simp add: split1_def getitem_def)
qed

lemma collect_lines_find:
  "collect_lines S ls =
     Inr (case find (\<lambda>l. startswith l ''guid: '') ls of
            None \<Rightarrow> S
          | Some l \<Rightarrow> insert (strip (tl (dropWhile (\<lambda>c. c \<noteq> CHR '':'') l))) S)"
  by (induction ls) (simp_all add: guid_line_split)

lemma collect_file_declared:
  "collect_file S f = Inr (S \<union> set_option (spec_declared_guid f))"
  by (auto simp: collect_file_def spec_declared_guid_def collect_lines_find
      split: content.splits option.splits)

lemma collect_files_declared:
  "collect_files S fs = Inr (S \<union> (\<Union>f\<in>set fs. set_option (spec_declared_guid f)))"
  by (induction fs arbitrary: S) (auto simp: collect_file_declared)

lemma collector_declared:
  "collector walk = Inr {g. \<exists>f\<in>set walk. spec_declared_guid f = Some g}"
proof -
  have "(\<Union>f\<in>set walk. set_option (spec_declared_guid f)) =
      {g. \<exists>f\<in>set walk. spec_declared_guid f = Some g}"
    by auto
  then show ?thesis by (simp add: collector_def collect_files_declared)
qed

lemma unreadable_declares_nothing:
  "content f = Unreadable \<Longrightarrow> spec_declared_guid f = None"
  by (simp add: spec_declared_guid_def)

subsection \<open>The Scanner as a union over the files\<close>

lemma scan_matches_union:
  "scan_matches V rel ms M = M \<union> scan_matches V rel ms {}"
  by (induction ms) (auto simp: Let_def)

lemma scan_file_union: "scan_file V M f = M \<union> scan_file V {} f"
  using scan_matches_union [of V "relpath f" _ M]
  by (auto simp: scan_file_def split: content.splits)

lemma scan_files_union:
  "scan_files V M fs = M \<union> (\<Union>f\<in>set fs. scan_file V {} f)"
proof (induction fs arbitrary: M)
  case Nil
  then show ?case by simp
next
  case (Cons f fs)
  show ?case
    using scan_file_union [of V M f] by (auto simp: Cons.IH)
qed

lemma scanner_union: "scanner V walk = (\<Union>f\<in>set walk. scan_file V {} f)"
  using scan_files_union [of V "{}" walk] by (simp add: scanner_def)

lemma finite_scan_matches: "finite M \<Longrightarrow> finite (scan_matches V rel ms M)"
  by (induction ms) (auto simp: Let_def)

lemma finite_scan_file: "finite M \<Longrightarrow> finite (scan_file V M f)"
  by (auto simp: scan_file_def finite_scan_matches split: content.splits)

lemma finite_scan_files: "finite M \<Longrightarrow> finite (scan_files V M fs)"
  by (induction fs arbitrary: M) (auto simp: finite_scan_file)

lemma finite_scanner: "finite (scanner V walk)"
  by (simp add: scanner_def finite_scan_files)

lemma unreadable_scan_nothing: "content f = Unreadable \<Longrightarrow> scan_file V M f = M"
  by (simp add: scan_file_def)

subsection \<open>Characters\<close>

lemma lower_char_idem: "lower_char (lower_char c) = lower_char c"
proof -
  have "of_char c < (256 :: nat)" by simp
  then show ?thesis
    unfolding lower_char_def Let_def by (auto simp: of_char_of)
qed

lemma lower_idem: "lower (lower s) = lower s"
  by (simp add: lower_def lower_char_idem)

lemma lower_char_space: "is_space c \<Longrightarrow> lower_char c = c"
  by (auto simp: is_space_def lower_char_def Let_def)

lemma hex_digit_not_space: "c \<in> set ''0123456789abcdef'' \<Longrightarrow> \<not> is_space c"
  by (auto simp: is_space_def)

lemma is_hex_not_space: "is_hex c \<Longrightarrow> \<not> is_space c"
  using lower_char_space [of c] hex_digit_not_space [of c] by (auto simp: is_hex_def)

subsection \<open>The pattern and its matches\<close>

lemma startswith_ignorecase_append: "startswith_ignorecase (s @ t) s"
  by (induction s) simp_all

lemma startswith_ignorecase_length: "startswith_ignorecase x s \<Longrightarrow> length s \<le> length x"
  by (induction x s rule: startswith_ignorecase.induct) simp_all

lemma startswith_ignorecase_blocked:
  assumes "lower_char c0 \<notin> set (lower s)"
  shows "startswith_ignorecase (x @ c0 # t) s = startswith_ignorecase x s"
  using assms by (induction x s rule: startswith_ignorecase.induct) (auto simp: lower_def)

lemma rmatch_Lit:
  "rmatch (Lit s # items) (s @ t) = rmatch items t"
  by (simp add: startswith_ignorecase_append)

lemma rmatch_Spaces:
  assumes "list_all is_space w" and "t = [] \<or> \<not> is_space (hd t)"
    and "rmatch items t = Some r"
  shows "rmatch (Spaces # items) (w @ t) = Some r"
  using assms
proof (induction w)
  case Nil
  then show ?case by (cases t) auto
next
  case (Cons c w)
  then show ?case by simp
qed

lemma rmatch_HexGroup:
  assumes "length h = n" and "list_all is_hex h"
  shows "rmatch [HexGroup n] (h @ rest) = Some (h, rest)"
  using assms by simp

lemma rmatch_pattern_fragment:
  assumes w: "list_all is_space w1" "list_all is_space w2" "list_all is_space w3"
      "list_all is_space w4"
    and h: "length h = 32" "list_all is_hex h"
  shows "rmatch pattern
           (''m_Script:'' @ w1 @ ''{fileID:'' @ w2 @ ''11500000,'' @ w3 @ ''guid:'' @ w4 @ h @ rest) =
         Some (h, rest)"
proof -
  from h have hd_h: "h @ rest = [] \<or> \<not> is_space (hd (h @ rest))"
    by (cases h) (auto simp: is_hex_not_space)
  have 1: "rmatch [HexGroup 32] (h @ rest) = Some (h, rest)"
    using h by (rule rmatch_HexGroup)
  have 2: "rmatch [Spaces, HexGroup 32] (w4 @ h @ rest) = Some (h, rest)"
    using w(4) hd_h 1 by (rule rmatch_Spaces)
  have 3: "rmatch [Lit ''guid:'', Spaces, HexGroup 32] (''guid:'' @ w4 @ h @ rest) = Some (h, rest)"
    using 2 by (simp only: rmatch_Lit)
  have 4: "rmatch [Spaces, Lit ''guid:'', Spaces, HexGroup 32] (w3 @ ''guid:'' @ w4 @ h @ rest) =
      Some (h, rest)"
    using w(3) _ 3 by (rule rmatch_Spaces) (simp add: is_space_def)
  have 5: "rmatch [Lit ''11500000,'', Spaces, Lit ''guid:'', Spaces, HexGroup 32]
      (''11500000,'' @ w3 @ ''guid:'' @ w4 @ h @ rest) = Some (h, rest)"
    using 4 by (simp only: rmatch_Lit)
  have 6: "rmatch [Spaces, Lit ''11500000,'', Spaces, Lit ''guid:'', Spaces, HexGroup 32]
      (w2 @ ''11500000,'' @ w3 @ ''guid:'' @ w4 @ h @ rest) = Some (h, rest)"
    using w(2) _ 5 by (rule rmatch_Spaces) (simp add: is_space_def)
  have 7: "rmatch [Lit ''{fileID:'', Spaces, Lit ''11500000,'', Spaces, Lit ''guid:'', Spaces,
      HexGroup 32]
      (''{fileID:'' @ w2 @ ''11500000,'' @ w3 @ ''guid:'' @ w4 @ h @ rest) = Some (h, rest)"
    using 6 by (simp only: rmatch_Lit)
  have 8: "rmatch [Spaces, Lit ''{fileID:'', Spaces, Lit ''11500000,'', Spaces, Lit ''guid:'',
      Spaces, HexGroup 32]
      (w1 @ ''{fileID:'' @ w2 @ ''11500000,'' @ w3 @ ''guid:'' @ w4 @ h @ rest) = Some (h, rest)"
    using w(1) _ 7 by (rule rmatch_Spaces) (simp add: is_space_def)
  show ?thesis
    unfolding pattern_def using 8 by (simp only: rmatch_Lit)
qed

lemma rmatch_blocked:
  assumes "\<not> is_space c0" and "\<not> is_hex c0"
    and "\<forall>s. Lit s \<in> set items \<longrightarrow> lower_char c0 \<notin> set (lower s)"
  shows "rmatch items (x @ c0 # t) = map_option (apsnd (\<lambda>r. r @ c0 # t)) (rmatch items x)"
  using assms
proof (induction items x rule: rmatch.induct)
  case (1 x)
  then show ?case by simp
next
  case (2 s items x)
  then have b: "lower_char c0 \<notin> set (lower s)" by simp
  show ?case
  proof (cases "startswith_ignorecase x s")
    case True
    then have "length s \<le> length x" by (rule startswith_ignorecase_length)
    with True 2 b show ?thesis by (simp add: startswith_ignorecase_blocked)
  next
    case False
    with b show ?thesis by (simp add: startswith_ignorecase_blocked)
  qed
next
  case (3 items)
  then show ?case by simp
next
  case (4 items c cs)
  then show ?case by (auto split: option.splits)
next
  case (5 n items x)
  show ?case
  proof (cases "n \<le> length x")
    case True
    with 5 show ?thesis by (auto split: option.splits)
  next
    case False
    then have "c0 \<in> set (take n (x @ c0 # t))"
      by (cases "n - length x") auto
    with \<open>\<not> is_hex c0\<close> have nh: "\<not> list_all is_hex (take n (x @ c0 # t))"
      by (auto simp: list_all_iff)
    have "rmatch (HexGroup n # items) (x @ c0 # t) = None"
      by (subst rmatch.simps) (simp only: nh simp_thms if_False)
    with False show ?thesis by simp
  qed
qed

lemma rmatch_pattern_blocked:
  assumes "lower_char c0 = CHR ''m''" and "x \<noteq> []"
  shows "rmatch pattern (x @ c0 # t) = map_option (apsnd (\<lambda>r. r @ c0 # t)) (rmatch pattern x)"
proof -
  let ?items = "[Lit ''_Script:'', Spaces, Lit ''{fileID:'', Spaces, Lit ''11500000,'', Spaces,
      Lit ''guid:'', Spaces, HexGroup 32]"
  from assms(2) obtain c cs where x: "x = c # cs" by (cases x) auto
  have split: "rmatch pattern (c # u) =
      (if lower_char c = lower_char CHR ''m'' then rmatch ?items u else None)" for u
    by (simp add: pattern_def)
  have sp: "\<not> is_space c0"
    using assms(1) lower_char_space [of c0] by (auto simp: is_space_def)
  have hx: "\<not> is_hex c0"
    using assms(1) by (simp add: is_hex_def)
  have lits: "\<forall>s. Lit s \<in> set ?items \<longrightarrow> lower_char c0 \<notin> set (lower s)"
    using assms(1) by (auto simp: lower_def lower_char_def char_of_def)
  have "rmatch ?items (cs @ c0 # t) = map_option (apsnd (\<lambda>r. r @ c0 # t)) (rmatch ?items cs)"
    using sp hx lits by (rule rmatch_blocked)
  then show ?thesis by (simp add: x split)
qed

lemma finditer_Nil: "finditer [] = []"
  by (simp add: finditer.simps pattern_def)

lemma finditer_match: "rmatch pattern t = Some (g, r) \<Longrightarrow> finditer t = g # finditer r"
  by (subst finditer.simps) simp

lemma finditer_skip: "rmatch pattern (c # cs) = None \<Longrightarrow> finditer (c # cs) = finditer cs"
  by (subst finditer.simps) simp

lemma finditer_append:
  assumes "lower_char c0 = CHR ''m''"
  shows "finditer (x @ c0 # t) = finditer x @ finditer (c0 # t)"
proof (induction x rule: length_induct)
  case (1 x)
  show ?case
  proof (cases x)
    case Nil
    then show ?thesis by (simp add: finditer_Nil)
  next
    case (Cons c cs)
    then have ne: "x \<noteq> []" by simp
    note b = rmatch_pattern_blocked [OF assms ne, of t]
    show ?thesis
    proof (cases "rmatch pattern x")
      case None
      with b have "rmatch pattern (x @ c0 # t) = None" by simp
      then have "finditer (x @ c0 # t) = finditer (cs @ c0 # t)"
        using Cons finditer_skip [of c "cs @ c0 # t"] by simp
      moreover have "finditer x = finditer cs"
        using None Cons finditer_skip [of c cs] by simp
      moreover have "finditer (cs @ c0 # t) = finditer cs @ finditer (c0 # t)"
        using 1 Cons by simp
      ultimately show ?thesis by simp
    next
      case (Some gr)
      then obtain g r where gr: "rmatch pattern x = Some (g, r)" by (cases gr) auto
      with b have "rmatch pattern (x @ c0 # t) = Some (g, r @ c0 # t)" by simp
      then have "finditer (x @ c0 # t) = g # finditer (r @ c0 # t)"
        by (rule finditer_match)
      moreover have "finditer x = g # finditer r"
        using gr by (rule finditer_match)
      moreover have "length r < length x"
        using gr by (rule rmatch_pattern_shorter)
      then have "finditer (r @ c0 # t) = finditer r @ finditer (c0 # t)"
        using 1 by simp
      ultimately show ?thesis by simp
    qed
  qed
qed

lemma finditer_fragment:
  assumes "list_all is_space w1" and "list_all is_space w2" and "list_all is_space w3"
    and "list_all is_space w4" and "length h = 32" and "list_all is_hex h"
  shows "finditer (before @ ''m_Script:'' @ w1 @ ''{fileID:'' @ w2 @ ''11500000,'' @ w3 @
           ''guid:'' @ w4 @ h @ rest) =
         finditer before @ h # finditer rest"
proof -
  let ?tail = "''_Script:'' @ w1 @ ''{fileID:'' @ w2 @ ''11500000,'' @ w3 @ ''guid:'' @ w4 @ h @ rest"
  have m: "lower_char CHR ''m'' = CHR ''m''" by (simp add: lower_char_def)
  have "rmatch pattern (CHR ''m'' # ?tail) = Some (h, rest)"
    using rmatch_pattern_fragment [OF assms, of rest] by simp
  then have "finditer (CHR ''m'' # ?tail) = h # finditer rest"
    by (rule finditer_match)
  with finditer_append [OF m, of before ?tail] show ?thesis by simp
qed

subsection \<open>The two inner loops\<close>

lemma scan_matches_first_missing:
  assumes "\<forall>p\<in>set pre. lower p \<in> V" and "lower m \<notin> V"
  shows "scan_matches V rel (pre @ m # post) M = insert (rel, lower m) M"
  using assms by (induction pre) (simp_all add: Let_def)

lemma scan_matches_present:
  assumes "lower m \<in> V"
  shows "scan_matches V rel (pre @ m # post) M = scan_matches V rel (pre @ post) M"
  using assms by (induction pre) (simp_all add: Let_def)

lemma scan_matches_absent: "(p, g) \<in> scan_matches V rel ms {} \<Longrightarrow> g \<notin> V"
  by (induction ms) (auto simp: Let_def split: if_splits)

lemma scan_file_absent: "(p, g) \<in> scan_file V {} f \<Longrightarrow> g \<notin> V"
  by (cases "content f") (auto simp: scan_file_def dest: scan_matches_absent split: if_splits)

lemma scanner_absent: "(p, g) \<in> scanner V walk \<Longrightarrow> g \<notin> V"
  by (auto simp: scanner_union dest: scan_file_absent)

lemma collect_lines_first_hit:
  assumes "\<forall>l\<in>set pre. \<not> startswith l ''guid: ''" and "startswith a '' ''"
  shows "collect_lines S (pre @ (''guid:'' @ a) # post) = Inr (insert (strip a) S)"
  using assms
proof (induction pre)
  case Nil
  from Nil(2) obtain r where "a = '' '' @ r" by (auto simp: startswith_iff)
  then show ?case by (simp add: split1_def getitem_def)
next
  case (Cons l pre)
  then show ?case by simp
qed

lemma collect_lines_no_hit:
  "\<forall>l\<in>set ls. \<not> startswith l ''guid: '' \<Longrightarrow> collect_lines S ls = Inr S"
  by (induction ls) simp_all

lemma first_split_unique:
  assumes "pre @ m # post = pre' @ m' # post'"
    and "\<forall>p\<in>set pre. P p" and "\<not> P m" and "\<forall>p\<in>set pre'. P p" and "\<not> P m'"
  shows "pre = pre' \<and> m = m'"
  using assms
proof (induction pre arbitrary: pre')
  case Nil
  then show ?case by (cases pre') auto
next
  case (Cons p pre)
  then show ?case by (cases pre') auto
qed

subsection \<open>Letter case in identifiers and in names\<close>

lemma upper_hex_lowered: "c \<in> set ''ABCDEF'' \<Longrightarrow> lower_char c \<noteq> c"
proof -
  have "list_all (\<lambda>c. lower_char c \<noteq> c) ''ABCDEF''" by code_simp
  then show "c \<in> set ''ABCDEF'' \<Longrightarrow> lower_char c \<noteq> c"
    unfolding list_all_iff by blast
qed

lemma lower_fixed: "c \<in> set (lower m) \<Longrightarrow> lower_char c = c"
  by (auto simp: lower_def lower_char_idem)

lemma upper_not_lower:
  assumes "\<exists>c\<in>set G. c \<in> set ''ABCDEF''"
  shows "G \<noteq> lower m"
  using assms upper_hex_lowered lower_fixed by blast

lemma endswith_append_iff:
  "length s = length p \<Longrightarrow> endswith (b @ s) p \<longleftrightarrow> s = p"
  by (auto simp: endswith_iff)

lemma endswith_any_lower:
  assumes "lower ext \<in> set target_exts"
  shows "endswith_any (lower (base @ ext)) target_exts"
proof -
  have "endswith (lower (base @ ext)) (lower ext)"
    by (simp add: endswith_iff lower_def)
  with assms show ?thesis
    unfolding endswith_any_def list_ex_iff by blast
qed

subsection \<open>Hexadecimal digits\<close>

lemma hex_chars_is_hex: "c \<in> set ''0123456789abcdefABCDEF'' \<Longrightarrow> is_hex c"
proof -
  have "list_all is_hex ''0123456789abcdefABCDEF''" by code_simp
  then show "c \<in> set ''0123456789abcdefABCDEF'' \<Longrightarrow> is_hex c"
    unfolding list_all_iff by blast
qed

lemma lower_char_hex:
  "c \<in> set ''0123456789abcdefABCDEF'' \<Longrightarrow>
   lower_char c = (case map_of (zip ''ABCDEF'' ''abcdef'') c of None \<Rightarrow> c | Some l \<Rightarrow> l)"
proof -
  have "list_all
      (\<lambda>c. lower_char c = (case map_of (zip ''ABCDEF'' ''abcdef'') c of None \<Rightarrow> c | Some l \<Rightarrow> l))
      ''0123456789abcdefABCDEF''"
    by code_simp
  then show "c \<in> set ''0123456789abcdefABCDEF'' \<Longrightarrow>
      lower_char c = (case map_of (zip ''ABCDEF'' ''abcdef'') c of None \<Rightarrow> c | Some l \<Rightarrow> l)"
    unfolding list_all_iff by blast
qed

lemma lower_hex:
  assumes "set h \<subseteq> set ''0123456789abcdefABCDEF''"
  shows "lower h =
    map (\<lambda>c. case map_of (zip ''ABCDEF'' ''abcdef'') c of None \<Rightarrow> c | Some l \<Rightarrow> l) h"
  unfolding lower_def
proof (rule map_cong [OF refl])
  fix c assume "c \<in> set h"
  with assms have "c \<in> set ''0123456789abcdefABCDEF''" by blast
  then show "lower_char c =
      (case map_of (zip ''ABCDEF'' ''abcdef'') c of None \<Rightarrow> c | Some l \<Rightarrow> l)"
    by (rule lower_char_hex)
qed

section \<open>The claims\<close>

subsection \<open>Unreadable files\<close>

text \<open>
  C4. A file whose open or read raises \<^verbatim>\<open>OSError\<close> is skipped by the Collector and by
  the Scanner: the identifiers and the records gathered so far stay as they are, the
  walk goes on as if the file were not there, the Collector returns a set, and no
  exception ends the run.
\<close>

theorem unreadable_file_skipped:
  assumes "content f = Unreadable"
  shows "collect_file script_guids f = Inr script_guids \<and>
         scan_file script_guids missing f = missing \<and>
         collector (before @ f # after) = collector (before @ after) \<and>
         (\<exists>S. collector (before @ f # after) = Inr S) \<and>
         scanner script_guids (before @ f # after) = scanner script_guids (before @ after) \<and>
         (\<exists>out. temp_missing (before @ f # after) (before' @ f # after') = Inr out)"
proof -
  have 1: "collect_file script_guids f = Inr script_guids"
    using assms by (simp add: collect_file_declared unreadable_declares_nothing)
  have 2: "scan_file script_guids missing f = missing"
    using assms by (rule unreadable_scan_nothing)
  have 3: "collector (before @ f # after) = collector (before @ after)"
    using assms by (simp add: collector_declared unreadable_declares_nothing)
  have 4: "\<exists>S. collector (before @ f # after) = Inr S"
    by (simp add: collector_declared)
  have 5: "scanner script_guids (before @ f # after) = scanner script_guids (before @ after)"
    using assms by (simp add: scanner_union unreadable_scan_nothing)
  have 6: "\<exists>out. temp_missing (before @ f # after) (before' @ f # after') = Inr out"
    by (simp add: temp_missing_def collector_declared)
  from 1 2 3 4 5 6 show ?thesis by blast
qed

text \<open>An unreadable metadata file, alone and in a walk.\<close>

theorem unreadable_file_skipped_witness:
  "collect_file {''00112233445566778899aabbccddeeff''}
     \<lparr>name = ''Locked.cs.meta'', relpath = ''Assets/Locked.cs.meta'', content = Unreadable\<rparr> =
     Inr {''00112233445566778899aabbccddeeff''} \<and>
   scan_file {} {(''Assets/A.prefab'', ''ffeeddccbbaa99887766554433221100'')}
     \<lparr>name = ''Locked.cs.meta'', relpath = ''Assets/Locked.cs.meta'', content = Unreadable\<rparr> =
     {(''Assets/A.prefab'', ''ffeeddccbbaa99887766554433221100'')} \<and>
   collector
     [\<lparr>name = ''Locked.cs.meta'', relpath = ''Assets/Locked.cs.meta'', content = Unreadable\<rparr>,
      \<lparr>name = ''Player.cs.meta'', relpath = ''Assets/Player.cs.meta'',
       content = Text ''guid: 00112233445566778899aabbccddeeff''\<rparr>] =
     Inr {''00112233445566778899aabbccddeeff''}"
proof -
  let ?u = "\<lparr>name = ''Locked.cs.meta'', relpath = ''Assets/Locked.cs.meta'',
    content = Unreadable\<rparr>"
  let ?p = "\<lparr>name = ''Player.cs.meta'', relpath = ''Assets/Player.cs.meta'',
    content = Text ''guid: 00112233445566778899aabbccddeeff''\<rparr>"
  have u: "content ?u = Unreadable" by simp
  have c: "collector [?p] = Inr {''00112233445566778899aabbccddeeff''}" by code_simp
  from unreadable_file_skipped [OF u, where before = "[]" and after = "[?p]"
      and script_guids = "{''00112233445566778899aabbccddeeff''}"]
  have "collect_file {''00112233445566778899aabbccddeeff''} ?u =
      Inr {''00112233445566778899aabbccddeeff''}"
    and "collector [?u, ?p] = collector [?p]"
    by simp_all
  moreover from unreadable_file_skipped [OF u, where script_guids = "{}"
      and missing = "{(''Assets/A.prefab'', ''ffeeddccbbaa99887766554433221100'')}"]
  have "scan_file {} {(''Assets/A.prefab'', ''ffeeddccbbaa99887766554433221100'')} ?u =
      {(''Assets/A.prefab'', ''ffeeddccbbaa99887766554433221100'')}"
    by simp
  ultimately show ?thesis using c by simp
qed

subsection \<open>The output\<close>

text \<open>
  C5. When no reference is missing the output is the one line
  \<^verbatim>\<open>No missing scripts under Assets\<close>. Otherwise it has one line
  \<^verbatim>\<open>relative path -> identifier\<close> for each record of the set, each record once, in
  the order of the paths and, for equal paths, of the identifiers.
\<close>

theorem reporter_output:
  assumes "collector walk_root = Inr script_guids"
    and "missing = scanner script_guids walk_assets"
  shows "if missing = {}
         then temp_missing walk_root walk_assets = Inr [''No missing scripts under Assets'']
         else \<exists>recs. temp_missing walk_root walk_assets =
                  Inr (map (\<lambda>(rel, guid). rel @ '' -> '' @ guid) recs) \<and>
                set recs = missing \<and> distinct recs \<and>
                sorted_wrt (\<lambda>(p1, g1) (p2, g2). p1 < p2 \<or> (p1 = p2 \<and> g1 \<le> g2)) recs"
proof (cases "missing = {}")
  case True
  with assms show ?thesis by (simp add: temp_missing_def reporter_def)
next
  case False
  let ?recs = "sorted_list_of_set missing"
  have fin: "finite missing" using assms(2) by (simp add: finite_scanner)
  have le: "(\<le>) = (\<lambda>(p1 :: string, g1 :: string) (p2, g2). p1 < p2 \<or> (p1 = p2 \<and> g1 \<le> g2))"
    by (auto simp: fun_eq_iff less_eq_prod_def)
  have "sorted ?recs" by simp
  then have srt: "sorted_wrt (\<lambda>(p1, g1) (p2, g2). p1 < p2 \<or> (p1 = p2 \<and> g1 \<le> g2)) ?recs"
    by (simp only: le)
  have out: "temp_missing walk_root walk_assets =
      Inr (map (\<lambda>(rel, guid). rel @ '' -> '' @ guid) ?recs)"
    using assms False by (simp add: temp_missing_def reporter_def format_line_def)
  from fin have "set ?recs = missing" and "distinct ?recs" by simp_all
  with out srt have "\<exists>recs. temp_missing walk_root walk_assets =
                  Inr (map (\<lambda>(rel, guid). rel @ '' -> '' @ guid) recs) \<and>
                set recs = missing \<and> distinct recs \<and>
                sorted_wrt (\<lambda>(p1, g1) (p2, g2). p1 < p2 \<or> (p1 = p2 \<and> g1 \<le> g2)) recs"
    by blast
  with False show ?thesis by simp
qed

text \<open>An empty tree, and a tree with two assets that each miss a script.\<close>

theorem reporter_output_witness:
  "temp_missing [] [] = Inr [''No missing scripts under Assets''] \<and>
   (\<exists>recs. temp_missing
      [\<lparr>name = ''Player.cs.meta'', relpath = ''Assets/Player.cs.meta'',
        content = Text ''guid: 00112233445566778899aabbccddeeff''\<rparr>]
      [\<lparr>name = ''B.unity'', relpath = ''Assets/B.unity'',
        content = Text ''m_Script: {fileID: 11500000, guid: FFEEDDCCBBAA99887766554433221100, type: 3}''\<rparr>,
       \<lparr>name = ''A.prefab'', relpath = ''Assets/A.prefab'',
        content = Text ''m_Script: {fileID: 11500000, guid: deadbeefdeadbeefdeadbeefdeadbeef, type: 3}''\<rparr>] =
      Inr (map (\<lambda>(rel, guid). rel @ '' -> '' @ guid) recs) \<and>
      set recs = {(''Assets/A.prefab'', ''deadbeefdeadbeefdeadbeefdeadbeef''),
                  (''Assets/B.unity'', ''ffeeddccbbaa99887766554433221100'')} \<and>
      distinct recs \<and>
      sorted_wrt (\<lambda>(p1, g1) (p2, g2). p1 < p2 \<or> (p1 = p2 \<and> g1 \<le> g2)) recs)"
proof -
  let ?root = "[\<lparr>name = ''Player.cs.meta'', relpath = ''Assets/Player.cs.meta'',
        content = Text ''guid: 00112233445566778899aabbccddeeff''\<rparr>]"
  let ?assets = "[\<lparr>name = ''B.unity'', relpath = ''Assets/B.unity'',
        content = Text ''m_Script: {fileID: 11500000, guid: FFEEDDCCBBAA99887766554433221100, type: 3}''\<rparr>,
       \<lparr>name = ''A.prefab'', relpath = ''Assets/A.prefab'',
        content = Text ''m_Script: {fileID: 11500000, guid: deadbeefdeadbeefdeadbeefdeadbeef, type: 3}''\<rparr>]"
  let ?missing = "{(''Assets/A.prefab'', ''deadbeefdeadbeefdeadbeefdeadbeef''),
                  (''Assets/B.unity'', ''ffeeddccbbaa99887766554433221100'')}"
  have c0: "collector [] = Inr {}" by code_simp
  have s0: "{} = scanner {} []" by code_simp
  have c1: "collector ?root = Inr {''00112233445566778899aabbccddeeff''}" by code_simp
  have s1: "?missing = scanner {''00112233445566778899aabbccddeeff''} ?assets" by code_simp
  have ne: "?missing \<noteq> {}" by simp
  from reporter_output [OF c0 s0]
  have "temp_missing [] [] = Inr [''No missing scripts under Assets'']" by simp
  moreover from reporter_output [OF c1 s1] ne
  have "\<exists>recs. temp_missing ?root ?assets =
      Inr (map (\<lambda>(rel, guid). rel @ '' -> '' @ guid) recs) \<and>
      set recs = ?missing \<and> distinct recs \<and>
      sorted_wrt (\<lambda>(p1, g1) (p2, g2). p1 < p2 \<or> (p1 = p2 \<and> g1 \<le> g2)) recs"
    by (simp only: if_False)
  ultimately show ?thesis by blast
qed

subsection \<open>Independence of the order of the walk\<close>

text \<open>
  C7. The Collector's result does not depend on the order in which the walk visits the
  files: two walks over the same files give the same set, and that set is exactly the
  set of the identifiers the metadata files declare.
\<close>

theorem collector_order_independent:
  assumes "set walk' = set walk"
  shows "collector walk' = collector walk \<and>
         collector walk = Inr {g. \<exists>f\<in>set walk. spec_declared_guid f = Some g}"
  using assms collector_declared [of walk] collector_declared [of walk'] by simp

text \<open>Two metadata files, visited in either order.\<close>

theorem collector_order_independent_witness:
  "collector
     [\<lparr>name = ''Enemy.cs.meta'', relpath = ''Assets/Enemy.cs.meta'',
       content = Text ''fileFormatVersion: 2
guid: ffeeddccbbaa99887766554433221100
''\<rparr>,
      \<lparr>name = ''Player.cs.meta'', relpath = ''Assets/Player.cs.meta'',
       content = Text ''fileFormatVersion: 2
guid: 00112233445566778899aabbccddeeff
''\<rparr>] =
   Inr {''00112233445566778899aabbccddeeff'', ''ffeeddccbbaa99887766554433221100''}"
proof -
  let ?p = "\<lparr>name = ''Player.cs.meta'', relpath = ''Assets/Player.cs.meta'',
       content = Text ''fileFormatVersion: 2
guid: 00112233445566778899aabbccddeeff
''\<rparr>"
  let ?e = "\<lparr>name = ''Enemy.cs.meta'', relpath = ''Assets/Enemy.cs.meta'',
       content = Text ''fileFormatVersion: 2
guid: ffeeddccbbaa99887766554433221100
''\<rparr>"
  have s: "set [?e, ?p] = set [?p, ?e]" by auto
  have c: "collector [?p, ?e] =
      Inr {''00112233445566778899aabbccddeeff'', ''ffeeddccbbaa99887766554433221100''}"
    by code_simp
  from collector_order_independent [OF s] c show ?thesis by simp
qed

text \<open>
  C8. Two runs over the same tree print the same lines, even when the two walks of the
  root and the two walks of \<^verbatim>\<open>Assets\<close> list the files in different orders.
\<close>

theorem output_order_independent:
  assumes "set walk_root' = set walk_root" and "set walk_assets' = set walk_assets"
  shows "temp_missing walk_root' walk_assets' = temp_missing walk_root walk_assets"
proof -
  from assms(1) have "collector walk_root' = collector walk_root"
    using collector_declared [of walk_root] collector_declared [of walk_root'] by simp
  moreover from assms(2) have "scanner V walk_assets' = scanner V walk_assets" for V
    by (simp add: scanner_union)
  ultimately show ?thesis by (simp add: temp_missing_def split: sum.splits)
qed

text \<open>The same two metadata files and two assets, walked in two orders.\<close>

theorem output_order_independent_witness:
  "temp_missing
     [\<lparr>name = ''Enemy.cs.meta'', relpath = ''Assets/Enemy.cs.meta'',
       content = Text ''guid: ffeeddccbbaa99887766554433221100''\<rparr>,
      \<lparr>name = ''Player.cs.meta'', relpath = ''Assets/Player.cs.meta'',
       content = Text ''guid: 00112233445566778899aabbccddeeff''\<rparr>]
     [\<lparr>name = ''B.unity'', relpath = ''Assets/B.unity'',
       content = Text ''m_Script: {fileID: 11500000, guid: 0123456789abcdef0123456789abcdef, type: 3}''\<rparr>,
      \<lparr>name = ''A.prefab'', relpath = ''Assets/A.prefab'',
       content = Text ''m_Script: {fileID: 11500000, guid: deadbeefdeadbeefdeadbeefdeadbeef, type: 3}''\<rparr>] =
   Inr [''Assets/A.prefab -> deadbeefdeadbeefdeadbeefdeadbeef'',
        ''Assets/B.unity -> 0123456789abcdef0123456789abcdef'']"
proof -
  let ?e = "\<lparr>name = ''Enemy.cs.meta'', relpath = ''Assets/Enemy.cs.meta'',
       content = Text ''guid: ffeeddccbbaa99887766554433221100''\<rparr>"
  let ?p = "\<lparr>name = ''Player.cs.meta'', relpath = ''Assets/Player.cs.meta'',
       content = Text ''guid: 00112233445566778899aabbccddeeff''\<rparr>"
  let ?b = "\<lparr>name = ''B.unity'', relpath = ''Assets/B.unity'',
       content = Text ''m_Script: {fileID: 11500000, guid: 0123456789abcdef0123456789abcdef, type: 3}''\<rparr>"
  let ?a = "\<lparr>name = ''A.prefab'', relpath = ''Assets/A.prefab'',
       content = Text ''m_Script: {fileID: 11500000, guid: deadbeefdeadbeefdeadbeefdeadbeef, type: 3}''\<rparr>"
  have r: "set [?e, ?p] = set [?p, ?e]" and a: "set [?b, ?a] = set [?a, ?b]" by auto
  have "temp_missing [?p, ?e] [?a, ?b] =
      Inr [''Assets/A.prefab -> deadbeefdeadbeefdeadbeefdeadbeef'',
           ''Assets/B.unity -> 0123456789abcdef0123456789abcdef'']"
    by code_simp
  with output_order_independent [OF r a] show ?thesis by simp
qed

subsection \<open>The pattern\<close>

text \<open>
  C3, as the pattern has it. White space is free in four places: after
  \<^verbatim>\<open>m_Script:\<close>, after \<^verbatim>\<open>{fileID:\<close>, after \<^verbatim>\<open>11500000,\<close> and after
  \<^verbatim>\<open>guid:\<close>. Whatever white space stands there, none included, and wherever the
  fragment stands in the text, the Scanner finds the 32 hexadecimal digits, after the
  matches of the text before the fragment and before those of the text after it.
\<close>

theorem pattern_whitespace:
  assumes "list_all is_space w1" and "list_all is_space w2" and "list_all is_space w3"
    and "list_all is_space w4" and "length h = 32" and "list_all is_hex h"
  shows "finditer (before @ ''m_Script:'' @ w1 @ ''{fileID:'' @ w2 @ ''11500000,'' @ w3 @
           ''guid:'' @ w4 @ h @ rest) =
         finditer before @ h # finditer rest"
  using assms by (rule finditer_fragment)

text \<open>
  No white space after the first key, three spaces, a line feed with a tab, one space.
\<close>

theorem pattern_whitespace_witness:
  "finditer (''  '' @ ''m_Script:'' @ [] @ ''{fileID:'' @ ''   '' @ ''11500000,'' @
     [CHR 0x0A, CHR 0x09] @ ''guid:'' @ '' '' @ ''0123456789abcdef0123456789ABCDEF'' @
     '', type: 3}'') =
   [''0123456789abcdef0123456789ABCDEF'']"
proof -
  have w1: "list_all is_space []" and w2: "list_all is_space ''   ''"
    and w3: "list_all is_space [CHR 0x0A, CHR 0x09]" and w4: "list_all is_space '' ''"
    by (simp_all add: is_space_def)
  have len: "length ''0123456789abcdef0123456789ABCDEF'' = 32" by simp
  have hex: "list_all is_hex ''0123456789abcdef0123456789ABCDEF''" by code_simp
  have b: "finditer ''  '' = []" and r: "finditer '', type: 3}'' = []" by code_simp+
  from pattern_whitespace [OF w1 w2 w3 w4 len hex, of "''  ''" "'', type: 3}''"]
  show ?thesis by (simp only: b r append_Nil)
qed

text \<open>
  C3, as it is stated, fails: white space between the brace and \<^verbatim>\<open>fileID\<close> is
  white space between two adjacent tokens, and the pattern does not match.
\<close>

theorem pattern_whitespace_counterexample:
  "finditer ''m_Script: { fileID: 11500000, guid: 0123456789abcdef0123456789abcdef, type: 3}'' = []"
  by code_simp

text \<open>
  C6. A reference whose 32 digits are hexadecimal digits of either case is matched,
  wherever it stands in the text. The Scanner compares its lower-case form, the digits
  A to F replaced by a to f, with the collected set: when that form is in the set the
  scan goes on with the next match, as if the reference were not there, and no record
  of any walk names it; when it is not, the record names the lower-case form.
\<close>

theorem uppercase_reference_matches:
  assumes "length h = 32" and "set h \<subseteq> set ''0123456789abcdefABCDEF''"
    and "g = map (\<lambda>c. case map_of (zip ''ABCDEF'' ''abcdef'') c of None \<Rightarrow> c | Some l \<Rightarrow> l) h"
  shows "finditer (before @ ''m_Script: {fileID: 11500000, guid: '' @ h @ rest) =
           finditer before @ h # finditer rest \<and>
         scan_matches script_guids rel (h # ms) missing =
           (if g \<in> script_guids then scan_matches script_guids rel ms missing
            else insert (rel, g) missing) \<and>
         (g \<in> script_guids \<longrightarrow>
            scan_matches script_guids rel
              (finditer (before @ ''m_Script: {fileID: 11500000, guid: '' @ h @ rest)) missing =
              scan_matches script_guids rel (finditer before @ finditer rest) missing \<and>
            (p, g) \<notin> scanner script_guids walk)"
proof -
  have sp: "list_all is_space '' ''" by (simp add: is_space_def)
  have hex: "list_all is_hex h"
    using assms(2) hex_chars_is_hex unfolding list_all_iff by blast
  have low: "lower h = g"
    using lower_hex [OF assms(2)] assms(3) by simp
  have f: "finditer (before @ ''m_Script: {fileID: 11500000, guid: '' @ h @ rest) =
      finditer before @ h # finditer rest"
    using finditer_fragment [OF sp sp sp sp assms(1) hex, of before rest] by simp
  have t: "scan_matches script_guids rel (h # ms) missing =
      (if g \<in> script_guids then scan_matches script_guids rel ms missing
       else insert (rel, g) missing)"
    by (simp add: low Let_def)
  have s: "scan_matches script_guids rel
      (finditer (before @ ''m_Script: {fileID: 11500000, guid: '' @ h @ rest)) missing =
      scan_matches script_guids rel (finditer before @ finditer rest) missing"
    if "g \<in> script_guids"
    unfolding f using that low scan_matches_present [of h script_guids] by simp
  have n: "(p, g) \<notin> scanner script_guids walk" if "g \<in> script_guids"
    using that scanner_absent [of p g script_guids walk] by blast
  from f t s n show ?thesis by blast
qed

text \<open>
  An upper-case reference: it is matched; against the set that holds its lower-case form
  nothing is recorded; against the set that holds only the upper-case form the record
  names the lower-case form.
\<close>

theorem uppercase_reference_matches_witness:
  "finditer (''--- !u!114'' @ ''m_Script: {fileID: 11500000, guid: '' @
      ''00112233445566778899AABBCCDDEEFF'' @ '', type: 3}'') =
     [''00112233445566778899AABBCCDDEEFF''] \<and>
   scan_matches {''00112233445566778899aabbccddeeff''} ''Assets/A.prefab''
     [''00112233445566778899AABBCCDDEEFF''] {} = {} \<and>
   scan_matches {''00112233445566778899AABBCCDDEEFF''} ''Assets/A.prefab''
     [''00112233445566778899AABBCCDDEEFF''] {} =
     {(''Assets/A.prefab'', ''00112233445566778899aabbccddeeff'')}"
proof -
  let ?H = "''00112233445566778899AABBCCDDEEFF''"
  let ?g = "''00112233445566778899aabbccddeeff''"
  have len: "length ?H = 32" by simp
  have sub: "set ?H \<subseteq> set ''0123456789abcdefABCDEF''" by code_simp
  have g: "?g = map (\<lambda>c. case map_of (zip ''ABCDEF'' ''abcdef'') c of None \<Rightarrow> c | Some l \<Rightarrow> l) ?H"
    by code_simp
  have b: "finditer ''--- !u!114'' = []" and r: "finditer '', type: 3}'' = []" by code_simp+
  note u = uppercase_reference_matches [OF len sub g]
  have "finditer (''--- !u!114'' @ ''m_Script: {fileID: 11500000, guid: '' @ ?H @
      '', type: 3}'') = finditer ''--- !u!114'' @ ?H # finditer '', type: 3}''"
    by (rule u [THEN conjunct1])
  then have 1: "finditer (''--- !u!114'' @ ''m_Script: {fileID: 11500000, guid: '' @ ?H @
      '', type: 3}'') = [?H]"
    by (simp only: b r append_Nil)
  have in1: "?g \<in> {?g}" by simp
  have in2: "?g \<notin> {?H}" by simp
  have "scan_matches {?g} ''Assets/A.prefab'' (?H # []) {} =
      (if ?g \<in> {?g} then scan_matches {?g} ''Assets/A.prefab'' [] {}
       else insert (''Assets/A.prefab'', ?g) {})"
    by (rule u [THEN conjunct2, THEN conjunct1])
  then have 2: "scan_matches {?g} ''Assets/A.prefab'' [?H] {} = {}"
    by (simp only: in1 if_True scan_matches.simps)
  have "scan_matches {?H} ''Assets/A.prefab'' (?H # []) {} =
      (if ?g \<in> {?H} then scan_matches {?H} ''Assets/A.prefab'' [] {}
       else insert (''Assets/A.prefab'', ?g) {})"
    by (rule u [THEN conjunct2, THEN conjunct1])
  then have 3: "scan_matches {?H} ''Assets/A.prefab'' [?H] {} =
      {(''Assets/A.prefab'', ?g)}"
    using in2 by (simp only: if_False)
  show ?thesis by (intro conjI) (fact 1, fact 2, fact 3)
qed

subsection \<open>The first hit of each inner loop\<close>

text \<open>
  C1. An asset file, read, with at least one match whose identifier is not in the
  collected set: the matches split into those before the first such match, all of them
  in the set, that match, and the rest. The file adds the one record that names this
  match, to whatever was recorded before; alone it gives exactly that record. The loop
  ends there: whatever matches follow, the result is the same.
\<close>

theorem scanner_first_missing:
  assumes "endswith_any (lower (name f)) target_exts" and "content f = Text t"
    and "\<exists>m\<in>set (finditer t). lower m \<notin> script_guids"
  shows "\<exists>pre m post.
           finditer t = pre @ m # post \<and>
           (\<forall>p\<in>set pre. lower p \<in> script_guids) \<and> lower m \<notin> script_guids \<and>
           scan_file script_guids missing f = insert (relpath f, lower m) missing \<and>
           scan_file script_guids {} f = {(relpath f, lower m)} \<and>
           (\<forall>post'. scan_matches script_guids (relpath f) (pre @ m # post') missing =
              insert (relpath f, lower m) missing)"
proof -
  from assms(3) obtain pre m post where d: "finditer t = pre @ m # post"
    and m: "lower m \<notin> script_guids" and pre: "\<forall>p\<in>set pre. \<not> lower p \<notin> script_guids"
    by (rule split_list_first_propE)
  from pre have pre': "\<forall>p\<in>set pre. lower p \<in> script_guids" by simp
  have stop: "scan_matches script_guids (relpath f) (pre @ m # post') M =
      insert (relpath f, lower m) M" for post' M
    using pre' m by (rule scan_matches_first_missing)
  have rec: "scan_file script_guids M f = insert (relpath f, lower m) M" for M
    using assms(1,2) d stop [of post M] by (simp add: scan_file_def)
  from d pre' m rec [of missing] rec [of "{}"] stop [of _ missing] show ?thesis by blast
qed

text \<open>
  Three references: the first is collected (and written in upper case), the second and
  the third are not; the record names the second.
\<close>

theorem scanner_first_missing_witness:
  "scan_file {''00112233445566778899aabbccddeeff''} {}
     \<lparr>name = ''Level.unity'', relpath = ''Assets/Level.unity'',
      content = Text ''m_Script: {fileID: 11500000, guid: 00112233445566778899AABBCCDDEEFF, type: 3}
m_Script: {fileID: 11500000, guid: deadbeefdeadbeefdeadbeefdeadbeef, type: 3}
m_Script: {fileID: 11500000, guid: 0123456789abcdef0123456789abcdef, type: 3}''\<rparr> =
   {(''Assets/Level.unity'', ''deadbeefdeadbeefdeadbeefdeadbeef'')}"
proof -
  let ?t = "''m_Script: {fileID: 11500000, guid: 00112233445566778899AABBCCDDEEFF, type: 3}
m_Script: {fileID: 11500000, guid: deadbeefdeadbeefdeadbeefdeadbeef, type: 3}
m_Script: {fileID: 11500000, guid: 0123456789abcdef0123456789abcdef, type: 3}''"
  let ?f = "\<lparr>name = ''Level.unity'', relpath = ''Assets/Level.unity'', content = Text ?t\<rparr>"
  let ?V = "{''00112233445566778899aabbccddeeff''}"
  have ext: "endswith_any (lower (name ?f)) target_exts" by code_simp
  have cnt: "content ?f = Text ?t" by simp
  have ft: "finditer ?t = [''00112233445566778899AABBCCDDEEFF'',
      ''deadbeefdeadbeefdeadbeefdeadbeef'', ''0123456789abcdef0123456789abcdef'']"
    by code_simp
  have l1: "lower ''00112233445566778899AABBCCDDEEFF'' \<in> ?V" by code_simp
  have l2: "lower ''deadbeefdeadbeefdeadbeefdeadbeef'' \<notin> ?V" by code_simp
  have l2': "lower ''deadbeefdeadbeefdeadbeefdeadbeef'' = ''deadbeefdeadbeefdeadbeefdeadbeef''"
    by code_simp
  have ex: "\<exists>m\<in>set (finditer ?t). lower m \<notin> ?V"
    unfolding ft using l2 by (intro bexI [of _ "''deadbeefdeadbeefdeadbeefdeadbeef''"]) simp_all
  from scanner_first_missing [OF ext cnt ex, of "{}"]
  obtain pre m post where d: "finditer ?t = pre @ m # post"
    and pre: "\<forall>p\<in>set pre. lower p \<in> ?V" and m: "lower m \<notin> ?V"
    and r: "scan_file ?V {} ?f = {(relpath ?f, lower m)}"
    by (elim exE conjE) (rule that; assumption)
  have d': "finditer ?t = [''00112233445566778899AABBCCDDEEFF''] @
      ''deadbeefdeadbeefdeadbeefdeadbeef'' # [''0123456789abcdef0123456789abcdef'']"
    unfolding ft by simp
  have pre': "\<forall>p\<in>set [''00112233445566778899AABBCCDDEEFF'']. lower p \<in> ?V"
    using l1 by simp
  have "pre @ m # post = [''00112233445566778899AABBCCDDEEFF''] @
      ''deadbeefdeadbeefdeadbeefdeadbeef'' # [''0123456789abcdef0123456789abcdef'']"
    using d d' by (rule trans [OF sym])
  from first_split_unique [where P = "\<lambda>p. lower p \<in> ?V", OF this pre m pre' l2]
  have "m = ''deadbeefdeadbeefdeadbeefdeadbeef''" by (rule conjunct2)
  with r l2' show ?thesis by simp
qed

text \<open>
  C2. A file whose name ends with \<^verbatim>\<open>.cs.meta\<close>, read: when its lines are some lines
  that do not start with \<^verbatim>\<open>guid: \<close>, then a line \<^verbatim>\<open>guid:\<close> followed by a text
  \<open>a\<close> that starts with a space, then any lines, the Collector adds \<open>a\<close> trimmed, the
  text after the first colon of that line, and the lines after it play no part. When no
  line starts with \<^verbatim>\<open>guid: \<close> the set stays as it is.
\<close>

theorem collector_first_guid_line:
  assumes "endswith (name f) ''.cs.meta''" and "content f = Text t"
  shows "(\<forall>pre a post.
            readlines t = pre @ (''guid:'' @ a) # post \<and> startswith a '' '' \<and>
            (\<forall>l\<in>set pre. \<not> startswith l ''guid: '') \<longrightarrow>
            collect_file script_guids f = Inr (insert (strip a) script_guids) \<and>
            (\<forall>post'. collect_lines script_guids (pre @ (''guid:'' @ a) # post') =
               Inr (insert (strip a) script_guids))) \<and>
         ((\<forall>l\<in>set (readlines t). \<not> startswith l ''guid: '') \<longrightarrow>
            collect_file script_guids f = Inr script_guids)"
proof -
  have loop: "collect_file script_guids f = collect_lines script_guids (readlines t)"
    using assms by (simp add: collect_file_def)
  have hit: "collect_file script_guids f = Inr (insert (strip a) script_guids) \<and>
      (\<forall>post'. collect_lines script_guids (pre @ (''guid:'' @ a) # post') =
         Inr (insert (strip a) script_guids))"
    if l: "readlines t = pre @ (''guid:'' @ a) # post" and a: "startswith a '' ''"
      and pre: "\<forall>l\<in>set pre. \<not> startswith l ''guid: ''" for pre a post
  proof -
    have "collect_lines script_guids (pre @ (''guid:'' @ a) # post') =
        Inr (insert (strip a) script_guids)" for post'
      using pre a by (rule collect_lines_first_hit)
    then show ?thesis unfolding loop l by blast
  qed
  have miss: "collect_file script_guids f = Inr script_guids"
    if "\<forall>l\<in>set (readlines t). \<not> startswith l ''guid: ''"
    unfolding loop using that by (rule collect_lines_no_hit)
  from hit miss show ?thesis by blast
qed

text \<open>
  A metadata file with two \<^verbatim>\<open>guid: \<close> lines, and one whose only such key is indented.
\<close>

theorem collector_first_guid_line_witness:
  "collect_file {}
     \<lparr>name = ''Player.cs.meta'', relpath = ''Assets/Player.cs.meta'',
      content = Text ''fileFormatVersion: 2
guid: 00112233445566778899aabbccddeeff
MonoImporter:
guid: ffffffffffffffffffffffffffffffff
''\<rparr> = Inr {''00112233445566778899aabbccddeeff''} \<and>
   collect_file {}
     \<lparr>name = ''Readme.cs.meta'', relpath = ''Assets/Readme.cs.meta'',
      content = Text ''fileFormatVersion: 2
  guid: 00112233445566778899aabbccddeeff
''\<rparr> = Inr {}"
proof -
  let ?t = "''fileFormatVersion: 2
guid: 00112233445566778899aabbccddeeff
MonoImporter:
guid: ffffffffffffffffffffffffffffffff
''"
  let ?f = "\<lparr>name = ''Player.cs.meta'', relpath = ''Assets/Player.cs.meta'', content = Text ?t\<rparr>"
  let ?u = "''fileFormatVersion: 2
  guid: 00112233445566778899aabbccddeeff
''"
  let ?g = "\<lparr>name = ''Readme.cs.meta'', relpath = ''Assets/Readme.cs.meta'', content = Text ?u\<rparr>"
  let ?a = "'' 00112233445566778899aabbccddeeff
''"
  have nf: "endswith (name ?f) ''.cs.meta''" and ng: "endswith (name ?g) ''.cs.meta''"
    by code_simp+
  have cf: "content ?f = Text ?t" and cg: "content ?g = Text ?u" by simp_all
  have ls: "readlines ?t = [''fileFormatVersion: 2
''] @ (''guid:'' @ ?a) # [''MonoImporter:
'', ''guid: ffffffffffffffffffffffffffffffff
'']"
    by code_simp
  have a: "startswith ?a '' ''" by simp
  have pre: "\<forall>l\<in>set [''fileFormatVersion: 2
'']. \<not> startswith l ''guid: ''"
    by simp
  have st: "strip ?a = ''00112233445566778899aabbccddeeff''" by code_simp
  have none: "\<forall>l\<in>set (readlines ?u). \<not> startswith l ''guid: ''" by code_simp
  have "collect_file {} ?f = Inr (insert (strip ?a) {})"
    by (rule collector_first_guid_line [OF nf cf, of "{}", THEN conjunct1, rule_format,
        OF conjI [OF ls conjI [OF a pre]], THEN conjunct1])
  then have 1: "collect_file {} ?f = Inr {''00112233445566778899aabbccddeeff''}"
    unfolding st .
  have 2: "collect_file {} ?g = Inr {}"
    by (rule collector_first_guid_line [OF ng cg, of "{}", THEN conjunct2, THEN mp,
        OF none])
  show ?thesis by (intro conjI) (fact 1, fact 2)
qed

subsection \<open>Upper and lower case\<close>

text \<open>
  C9, as the code has it. The Collector stores the declared identifier as it is read.
  When it holds one of the digits A to F in upper case, no identifier the Scanner
  compares is equal to it, since the Scanner lower-cases what it matched. A reference
  to that identifier is recorded when the lower-case form is not in the collected set
  and every match before it in the file is in the set.
\<close>

theorem uppercase_declaration_unmatched:
  assumes "collector walk_root = Inr script_guids" and "f \<in> set walk_root"
    and "spec_declared_guid f = Some G" and "\<exists>c\<in>set G. c \<in> set ''ABCDEF''"
  shows "G \<in> script_guids \<and>
         (\<forall>t. G \<notin> set (map lower (finditer t))) \<and>
         (\<forall>a t pre m post missing.
            endswith_any (lower (name a)) target_exts \<and> content a = Text t \<and>
            finditer t = pre @ m # post \<and> lower m = lower G \<and>
            (\<forall>p\<in>set pre. lower p \<in> script_guids) \<and> lower G \<notin> script_guids \<longrightarrow>
            scan_file script_guids missing a = insert (relpath a, lower G) missing)"
proof -
  from assms(1) have "script_guids = {g. \<exists>f\<in>set walk_root. spec_declared_guid f = Some g}"
    by (simp add: collector_declared)
  with assms(2,3) have stored: "G \<in> script_guids" by blast
  have unmatched: "G \<notin> set (map lower (finditer t))" for t
    using upper_not_lower [OF assms(4)] by auto
  have reported: "scan_file script_guids missing a = insert (relpath a, lower G) missing"
    if "endswith_any (lower (name a)) target_exts" and "content a = Text t"
      and "finditer t = pre @ m # post" and "lower m = lower G"
      and "\<forall>p\<in>set pre. lower p \<in> script_guids" and "lower G \<notin> script_guids"
    for a t pre m post missing
  proof -
    from that(4,6) have "lower m \<notin> script_guids" by simp
    with that(5) have "scan_matches script_guids (relpath a) (pre @ m # post) missing =
        insert (relpath a, lower m) missing"
      by (rule scan_matches_first_missing)
    with that(1,2,3,4) show ?thesis by (simp add: scan_file_def)
  qed
  from stored unmatched reported show ?thesis by blast
qed

text \<open>
  One metadata file that declares an identifier in upper case, and an asset that refers
  to it.
\<close>

theorem uppercase_declaration_unmatched_witness:
  "scan_file {''0123456789ABCDEF0123456789ABCDEF''} {}
     \<lparr>name = ''A.prefab'', relpath = ''Assets/A.prefab'',
      content = Text ''m_Script: {fileID: 11500000, guid: 0123456789abcdef0123456789abcdef, type: 3}''\<rparr> =
   {(''Assets/A.prefab'', ''0123456789abcdef0123456789abcdef'')}"
proof -
  let ?G = "''0123456789ABCDEF0123456789ABCDEF''"
  let ?g = "''0123456789abcdef0123456789abcdef''"
  let ?f = "\<lparr>name = ''Player.cs.meta'', relpath = ''Assets/Player.cs.meta'',
    content = Text ''guid: 0123456789ABCDEF0123456789ABCDEF''\<rparr>"
  let ?t = "''m_Script: {fileID: 11500000, guid: 0123456789abcdef0123456789abcdef, type: 3}''"
  let ?a = "\<lparr>name = ''A.prefab'', relpath = ''Assets/A.prefab'', content = Text ?t\<rparr>"
  have c: "collector [?f] = Inr {?G}" by code_simp
  have m: "?f \<in> set [?f]" by simp
  have d: "spec_declared_guid ?f = Some ?G" by code_simp
  have u: "\<exists>c\<in>set ?G. c \<in> set ''ABCDEF''"
    by (rule bexI [of _ "CHR ''A''"]) simp_all
  have ext: "endswith_any (lower (name ?a)) target_exts" by code_simp
  have cnt: "content ?a = Text ?t" by simp
  have ft: "finditer ?t = [] @ ?g # []" by code_simp
  have low: "lower ?g = lower ?G" by code_simp
  have pre: "\<forall>p\<in>set []. lower p \<in> {?G}" by simp
  have lg: "lower ?G = ?g" by code_simp
  have abs: "lower ?G \<notin> {?G}" unfolding lg by simp
  have "scan_file {?G} {} ?a = insert (relpath ?a, lower ?G) {}"
    by (rule uppercase_declaration_unmatched [OF c m d u, THEN conjunct2, THEN conjunct2,
        THEN spec, THEN spec, THEN spec, THEN spec, THEN spec, THEN spec, THEN mp,
        OF conjI [OF ext conjI [OF cnt conjI [OF ft conjI [OF low conjI [OF pre abs]]]]]])
  then show ?thesis unfolding lg by simp
qed

text \<open>
  C9, as it is stated, fails, twice. The set holds the upper-case identifier alone and the
  asset refers to an uncollected identifier first: the one record of the file names that
  one, and the reference to the upper-case identifier is not reported. And when a second
  metadata file declares the lower-case form, the reference is in the set and nothing is
  reported.
\<close>

theorem uppercase_declaration_counterexample:
  "collector
     [\<lparr>name = ''Player.cs.meta'', relpath = ''Assets/Player.cs.meta'',
       content = Text ''guid: 0123456789ABCDEF0123456789ABCDEF''\<rparr>] =
     Inr {''0123456789ABCDEF0123456789ABCDEF''} \<and>
   temp_missing
     [\<lparr>name = ''Player.cs.meta'', relpath = ''Assets/Player.cs.meta'',
       content = Text ''guid: 0123456789ABCDEF0123456789ABCDEF''\<rparr>]
     [\<lparr>name = ''A.prefab'', relpath = ''Assets/A.prefab'',
       content = Text ''m_Script: {fileID: 11500000, guid: deadbeefdeadbeefdeadbeefdeadbeef, type: 3}
m_Script: {fileID: 11500000, guid: 0123456789ABCDEF0123456789ABCDEF, type: 3}''\<rparr>] =
     Inr [''Assets/A.prefab -> deadbeefdeadbeefdeadbeefdeadbeef''] \<and>
   temp_missing
     [\<lparr>name = ''Player.cs.meta'', relpath = ''Assets/Player.cs.meta'',
       content = Text ''guid: 0123456789ABCDEF0123456789ABCDEF''\<rparr>,
      \<lparr>name = ''Copy.cs.meta'', relpath = ''Assets/Copy.cs.meta'',
       content = Text ''guid: 0123456789abcdef0123456789abcdef''\<rparr>]
     [\<lparr>name = ''A.prefab'', relpath = ''Assets/A.prefab'',
       content = Text ''m_Script: {fileID: 11500000, guid: 0123456789ABCDEF0123456789ABCDEF, type: 3}''\<rparr>] =
     Inr [''No missing scripts under Assets'']"
  by (intro conjI; code_simp)

text \<open>
  C10. The Collector tests the name as it is: a name that ends with the sidecar suffix in
  any other case is skipped, whatever the file holds. The Scanner tests the lower-cased
  name: a file whose extension is one of the three in any case is scanned.
\<close>

theorem suffix_test_case:
  "(lower sfx = ''.cs.meta'' \<and> sfx \<noteq> ''.cs.meta'' \<longrightarrow>
      collect_file script_guids \<lparr>name = base @ sfx, relpath = r, content = c\<rparr> =
        Inr script_guids) \<and>
   (lower ext \<in> set target_exts \<longrightarrow>
      scan_file script_guids missing \<lparr>name = base @ ext, relpath = r, content = Text t\<rparr> =
        scan_matches script_guids r (finditer t) missing)"
proof -
  have skipped: "collect_file script_guids \<lparr>name = base @ sfx, relpath = r, content = c\<rparr> =
      Inr script_guids"
    if "lower sfx = ''.cs.meta''" and "sfx \<noteq> ''.cs.meta''"
  proof -
    have "length (lower sfx) = length sfx" by (simp add: lower_def)
    with that(1) have "length sfx = length ''.cs.meta''" by simp
    then have "endswith (base @ sfx) ''.cs.meta'' \<longleftrightarrow> sfx = ''.cs.meta''"
      by (rule endswith_append_iff)
    with that(2) show ?thesis by (simp add: collect_file_def)
  qed
  have scanned: "scan_file script_guids missing
      \<lparr>name = base @ ext, relpath = r, content = Text t\<rparr> =
      scan_matches script_guids r (finditer t) missing"
    if "lower ext \<in> set target_exts"
    using endswith_any_lower [OF that, of base] by (simp add: scan_file_def)
  from skipped scanned show ?thesis by blast
qed

text \<open>\<^verbatim>\<open>Foo.CS.META\<close> is skipped, \<^verbatim>\<open>Level.PREFAB\<close> is scanned.\<close>

theorem suffix_test_case_witness:
  "collect_file {}
     \<lparr>name = ''Foo.CS.META'', relpath = ''Assets/Foo.CS.META'',
      content = Text ''guid: 00112233445566778899aabbccddeeff''\<rparr> = Inr {} \<and>
   scan_file {} {}
     \<lparr>name = ''Level.PREFAB'', relpath = ''Assets/Level.PREFAB'',
      content = Text ''m_Script: {fileID: 11500000, guid: deadbeefdeadbeefdeadbeefdeadbeef, type: 3}''\<rparr> =
     {(''Assets/Level.PREFAB'', ''deadbeefdeadbeefdeadbeefdeadbeef'')}"
proof -
  let ?t = "''m_Script: {fileID: 11500000, guid: deadbeefdeadbeefdeadbeefdeadbeef, type: 3}''"
  have up: "lower ''.CS.META'' = ''.cs.meta'' \<and> ''.CS.META'' \<noteq> ''.cs.meta''"
    by (intro conjI; code_simp)
  have ex: "lower ''.PREFAB'' \<in> set target_exts" by code_simp
  have sm: "scan_matches {} ''Assets/Level.PREFAB'' (finditer ?t) {} =
      {(''Assets/Level.PREFAB'', ''deadbeefdeadbeefdeadbeefdeadbeef'')}"
    by code_simp
  have 1: "collect_file {}
     \<lparr>name = ''Foo'' @ ''.CS.META'', relpath = ''Assets/Foo.CS.META'',
      content = Text ''guid: 00112233445566778899aabbccddeeff''\<rparr> = Inr {}"
    by (rule suffix_test_case [THEN conjunct1, THEN mp, OF up])
  have 2: "scan_file {} {}
     \<lparr>name = ''Level'' @ ''.PREFAB'', relpath = ''Assets/Level.PREFAB'', content = Text ?t\<rparr> =
     scan_matches {} ''Assets/Level.PREFAB'' (finditer ?t) {}"
    by (rule suffix_test_case [THEN conjunct2, THEN mp, OF ex])
  from 1 2 show ?thesis unfolding sm by simp
qed

end
